theory Spec2Isabelle
  imports Main "HOL-Library.Word" "HOL-Library.Multiset"
begin

section \<open>The condition variable of core/condvar.cc\<close>

text \<open>
  The file \<^verbatim>\<open>core/condvar.cc\<close> implements \<^verbatim>\<open>condvar_wait\<close> (two overloads),
  \<^verbatim>\<open>condvar_wake_one\<close> and \<^verbatim>\<open>condvar_wake_all\<close> over a singly linked FIFO of
  wait records. Every access to the FIFO happens between \<^verbatim>\<open>mutex_lock(&condvar->m)\<close>
  and \<^verbatim>\<open>mutex_unlock(&condvar->m)\<close>, so each such section is one function on the
  shared state here. Calls into code that is not part of the file (the user mutex, the
  wait record's \<^verbatim>\<open>wait\<close>, \<^verbatim>\<open>wake\<close>) are recorded as actions, in program order.
\<close>

subsection \<open>Data\<close>

text \<open>
  Pointers: an address or \<^verbatim>\<open>nullptr\<close> (\<open>None\<close>). Addresses, threads, CPUs are numbers.
\<close>

type_synonym addr = nat
type_synonym ptr = "addr option"
type_synonym thread = nat
type_synonym cpu = nat

text \<open>
  Modelled from the spec: the type \<^verbatim>\<open>wait_record\<close> (osv/wait_record.hh is not part of the
  sources at hand). A record names the waiting thread (\<^verbatim>\<open>thread()\<close>) and carries the
  \<^verbatim>\<open>next\<close> link that condvar.cc reads and writes directly. Its \<^verbatim>\<open>woken\<close> flag is written
  only by \<^verbatim>\<open>wake()\<close> and by the mutex hand-off, both outside condvar.cc: the values that
  \<^verbatim>\<open>woken()\<close> returns are therefore inputs of the functions below, and \<^verbatim>\<open>wake()\<close>,
  \<^verbatim>\<open>wait()\<close> are actions.
\<close>

record wait_record =
  thread :: thread
  wr_next :: ptr

text \<open>
  Modelled from the spec: the constructor \<^verbatim>\<open>wait_record wr(sched::thread::current())\<close>
  binds the record to the calling thread; its link starts as \<^verbatim>\<open>nullptr\<close> (condvar.cc
  never writes the link of the record it appends, and the list ends at the newest record).
\<close>

definition wait_record_new :: "thread \<Rightarrow> wait_record" where
  "wait_record_new t = \<lparr>thread = t, wr_next = None\<rparr>"

text \<open>
  The shared state: the fields of \<^verbatim>\<open>condvar_t\<close> that condvar.cc uses
  (\<^verbatim>\<open>waiters_fifo.oldest\<close>, \<^verbatim>\<open>waiters_fifo.newest\<close>, and \<^verbatim>\<open>user_mutex\<close>, which exists
  only under \<^verbatim>\<open>WAIT_MORPHING\<close>), and the memory holding the wait records, which live on
  the stacks of the waiting threads. The memory is total: every address holds some
  record, and only an access through \<^verbatim>\<open>nullptr\<close> is a fault.
\<close>

record state =
  oldest :: ptr
  newest :: ptr
  user_mutex :: ptr
  heap :: "addr \<Rightarrow> wait_record"

text \<open>
  What ends a call other than a return: a failed \<^verbatim>\<open>assert\<close>, or a member access
  through \<^verbatim>\<open>nullptr\<close>.
\<close>

datatype fault = AssertFail | NullDeref

text \<open>
  Calls that leave condvar.cc. A timer is given by the absolute time it is set to;
  \<open>None\<close> is the \<^verbatim>\<open>nullptr\<close> timer.
\<close>

datatype action =
    MutexUnlock ptr
  | MutexLock ptr
  | ReceiveLock addr
  | SendLock addr addr
  | Wake addr
  | WrWait addr "64 word option"

text \<open>\<^verbatim>\<open>ETIMEDOUT\<close> comes from errno.h; only its being non-zero matters below.\<close>

definition ETIMEDOUT :: int where
  "ETIMEDOUT = 110"

subsection \<open>condvar\_wait: linking the record (lines 33 to 53)\<close>

text \<open>
  \<open>wm\<close> is the compile-time switch \<^verbatim>\<open>WAIT_MORPHING\<close>; \<open>w\<close> is the address of the
  caller's record \<^verbatim>\<open>wr\<close>, \<open>t\<close> the calling thread, \<open>um\<close> the argument
  \<^verbatim>\<open>user_mutex\<close>.
\<close>

definition fifo_append :: "addr \<Rightarrow> state \<Rightarrow> fault + state" where
  "fifo_append w s =
     (case oldest s of
        None \<Rightarrow> Inr (s\<lparr>oldest := Some w\<rparr>)
      | Some _ \<Rightarrow>
          (case newest s of
             None \<Rightarrow> Inl NullDeref
           | Some n \<Rightarrow> Inr (s\<lparr>heap := (heap s)(n := (heap s n)\<lparr>wr_next := Some w\<rparr>)\<rparr>)))"

definition condvar_wait_enqueue :: "bool \<Rightarrow> addr \<Rightarrow> thread \<Rightarrow> ptr \<Rightarrow> state \<Rightarrow> fault + state" where
  "condvar_wait_enqueue wm w t um s =
     (case fifo_append w (s\<lparr>heap := (heap s)(w := wait_record_new t)\<rparr>) of
        Inl f \<Rightarrow> Inl f
      | Inr s1 \<Rightarrow>
          (let s2 = s1\<lparr>newest := Some w\<rparr> in
           if wm then
             (if user_mutex s2 \<noteq> None \<and> user_mutex s2 \<noteq> um then Inl AssertFail
              else Inr (s2\<lparr>user_mutex := um\<rparr>))
           else Inr s2))"

subsection \<open>condvar\_wake\_one (lines 105 to 137)\<close>

text \<open>
  The hand-off of one record: \<^verbatim>\<open>condvar->user_mutex->send_lock(wr)\<close> under
  \<^verbatim>\<open>WAIT_MORPHING\<close>, a member call through the remembered pointer, and
  \<^verbatim>\<open>wr->wake()\<close> otherwise.
\<close>

definition handoff :: "bool \<Rightarrow> ptr \<Rightarrow> addr \<Rightarrow> fault + action" where
  "handoff wm m a =
     (if wm then (case m of None \<Rightarrow> Inl NullDeref | Some u \<Rightarrow> Inr (SendLock u a))
      else Inr (Wake a))"

text \<open>
  The unlocked test of line 111 and the locked one of line 117 read the same state here.
\<close>

definition condvar_wake_one :: "bool \<Rightarrow> state \<Rightarrow> fault + (state \<times> action list)" where
  "condvar_wake_one wm s =
     (if oldest s = None then Inr (s, [])
      else
        (case oldest s of
           None \<Rightarrow> Inr (s, [])
         | Some a \<Rightarrow>
             (let nx = wr_next (heap s a);
                  s1 = s\<lparr>oldest := nx\<rparr>;
                  s2 = (if nx = None then s1\<lparr>newest := None\<rparr> else s1)
              in case handoff wm (user_mutex s2) a of
                   Inl f \<Rightarrow> Inl f
                 | Inr act \<Rightarrow>
                     Inr (if wm \<and> oldest s2 = None then s2\<lparr>user_mutex := None\<rparr> else s2,
                          [act]))))"

subsection \<open>condvar\_wait: after the record's wait returns (lines 56 to 102)\<close>

text \<open>
  The loop of lines 68 to 77: \<open>p\<close> walks the list from \<^verbatim>\<open>oldest\<close>, looking for the
  record whose link is \<^verbatim>\<open>&wr\<close>. The result is the final value of \<open>p\<close> (tested at
  line 78) and the state. The walk need not end on an arbitrary memory, so a walk that
  does not return is \<open>None\<close>.
\<close>

partial_function (option) unlink_loop :: "addr \<Rightarrow> ptr \<Rightarrow> state \<Rightarrow> (ptr \<times> state) option" where
  "unlink_loop w p s =
     (case p of
        None \<Rightarrow> Some (None, s)
      | Some a \<Rightarrow>
          if wr_next (heap s a) = Some w then
            (let nn = wr_next (heap s w);
                 s1 = s\<lparr>heap := (heap s)(a := (heap s a)\<lparr>wr_next := nn\<rparr>)\<rparr>
             in Some (Some a, if nn = None then s1\<lparr>newest := Some a\<rparr> else s1))
          else unlink_loop w (wr_next (heap s a)) s)"

declare unlink_loop.simps [code]

text \<open>
  Lines 58 to 82, run when \<^verbatim>\<open>wr.woken()\<close> was false at line 57: \<^verbatim>\<open>ret\<close> starts as
  \<^verbatim>\<open>ETIMEDOUT\<close> and is reset to 0 when the loop ends with \<open>p\<close> null.
\<close>

definition condvar_wait_timeout :: "addr \<Rightarrow> state \<Rightarrow> (int \<times> state) option" where
  "condvar_wait_timeout w s =
     (if Some w = oldest s then
        (let nx = wr_next (heap s w);
             s1 = s\<lparr>oldest := nx\<rparr>
         in Some (ETIMEDOUT, if nx = None then s1\<lparr>newest := None\<rparr> else s1))
      else
        (case unlink_loop w (oldest s) s of
           None \<Rightarrow> None
         | Some (p, s1) \<Rightarrow> Some (if p = None then 0 else ETIMEDOUT, s1)))"

text \<open>
  Lines 92 to 100: \<^verbatim>\<open>user_mutex->receive_lock()\<close> when \<^verbatim>\<open>WAIT_MORPHING\<close> is on and
  \<^verbatim>\<open>wr.woken()\<close> holds (\<open>wk\<close>), \<^verbatim>\<open>mutex_lock(user_mutex)\<close> otherwise.
\<close>

definition condvar_wait_reacquire :: "bool \<Rightarrow> bool \<Rightarrow> ptr \<Rightarrow> fault + action" where
  "condvar_wait_reacquire wm wk um =
     (if wm \<and> wk then (case um of None \<Rightarrow> Inl NullDeref | Some u \<Rightarrow> Inr (ReceiveLock u))
      else Inr (MutexLock um))"

text \<open>
  What the waiter sees of the other threads during one call: the value of
  \<^verbatim>\<open>wr.woken()\<close> at line 57, what the others did to the shared state between the
  waiter's release of the internal mutex (line 52) and its taking it again (line 60), and
  the value of \<^verbatim>\<open>wr.woken()\<close> at line 93.
\<close>

record env =
  woken_after_wait :: bool
  others :: "state \<Rightarrow> state"
  woken_at_exit :: bool

text \<open>
  Lines 56 to 102 on the state \<open>s\<close> found at line 60. The result is \<^verbatim>\<open>ret\<close>, the
  state left at line 82 and the calls made, \<^verbatim>\<open>wr.wait(tmr)\<close> first.
\<close>

definition condvar_wait_wakeup ::
  "bool \<Rightarrow> env \<Rightarrow> addr \<Rightarrow> ptr \<Rightarrow> 64 word option \<Rightarrow> state \<Rightarrow> (fault + (int \<times> state \<times> action list)) option" where
  "condvar_wait_wakeup wm e w um tmr s =
     (case (if woken_after_wait e then Some (0, s)
            else condvar_wait_timeout w s) of
        None \<Rightarrow> None
      | Some (ret, s1) \<Rightarrow>
          (case condvar_wait_reacquire wm (woken_at_exit e) um of
             Inl f \<Rightarrow> Some (Inl f)
           | Inr act \<Rightarrow>
               Some (Inr (ret, s1,
                 [WrWait w tmr]
                 @ (if \<not> woken_after_wait e \<and> ret = 0 then [WrWait w None] else [])
                 @ [act]))))"

subsection \<open>condvar\_wait, both overloads\<close>

definition condvar_wait ::
  "bool \<Rightarrow> env \<Rightarrow> addr \<Rightarrow> thread \<Rightarrow> ptr \<Rightarrow> 64 word option \<Rightarrow> state \<Rightarrow> (fault + (int \<times> state \<times> action list)) option" where
  "condvar_wait wm e w t um tmr s =
     (case condvar_wait_enqueue wm w t um s of
        Inl f \<Rightarrow> Some (Inl f)
      | Inr s1 \<Rightarrow>
          (case condvar_wait_wakeup wm e w um tmr (others e s1) of
             None \<Rightarrow> None
           | Some (Inl f) \<Rightarrow> Some (Inl f)
           | Some (Inr (ret, s2, acts)) \<Rightarrow> Some (Inr (ret, s2, MutexUnlock um # acts))))"

text \<open>
  Lines 18 to 27: the overload taking \<^verbatim>\<open>uint64_t expiration\<close>. \<^verbatim>\<open>timer.set(expiration)\<close>
  yields the timer \<open>Some expiration\<close>.
\<close>

definition condvar_wait_expiration ::
  "bool \<Rightarrow> env \<Rightarrow> addr \<Rightarrow> thread \<Rightarrow> ptr \<Rightarrow> 64 word \<Rightarrow> state \<Rightarrow> (fault + (int \<times> state \<times> action list)) option" where
  "condvar_wait_expiration wm e w t um expiration s =
     (if expiration \<noteq> 0 then condvar_wait wm e w t um (Some expiration) s
      else condvar_wait wm e w t um None s)"

subsection \<open>condvar\_wake\_all (lines 139 to 184)\<close>

text \<open>
  The inner loop of lines 165 to 178, under \<^verbatim>\<open>WAIT_MORPHING\<close>. \<open>tcpu\<close> gives the CPU
  of a thread (\<^verbatim>\<open>thread()->tcpu()\<close>), \<open>um\<close> is the local copy of the remembered mutex,
  \<open>cpu_wr\<close> the CPU of the record handed off by the outer loop. The result is the new
  \<^verbatim>\<open>next_wr\<close>, the memory and the calls made so far.
\<close>

partial_function (option) affinity_loop ::
  "(thread \<Rightarrow> cpu) \<Rightarrow> ptr \<Rightarrow> cpu \<Rightarrow> ptr \<Rightarrow> ptr \<Rightarrow> ptr \<Rightarrow> (addr \<Rightarrow> wait_record) \<Rightarrow> action list
     \<Rightarrow> (fault + (ptr \<times> (addr \<Rightarrow> wait_record) \<times> action list)) option" where
  "affinity_loop tcpu um cpu_wr r prevr next_wr h acts =
     (case r of
        None \<Rightarrow> Some (Inr (next_wr, h, acts))
      | Some a \<Rightarrow>
          (let nextr = wr_next (h a) in
           if tcpu (thread (h a)) = cpu_wr then
             (case handoff True um a of
                Inl f \<Rightarrow> Some (Inl f)
              | Inr act \<Rightarrow>
                  if r = next_wr then
                    affinity_loop tcpu um cpu_wr nextr prevr nextr h (acts @ [act])
                  else
                    (case prevr of
                       None \<Rightarrow> Some (Inl NullDeref)
                     | Some p \<Rightarrow>
                         affinity_loop tcpu um cpu_wr nextr prevr next_wr
                           (h(p := (h p)\<lparr>wr_next := nextr\<rparr>)) (acts @ [act])))
           else affinity_loop tcpu um cpu_wr nextr (Some a) next_wr h acts))"

declare affinity_loop.simps [code]

text \<open>The outer loop of lines 156 to 183.\<close>

partial_function (option) wake_all_loop ::
  "bool \<Rightarrow> (thread \<Rightarrow> cpu) \<Rightarrow> ptr \<Rightarrow> ptr \<Rightarrow> (addr \<Rightarrow> wait_record) \<Rightarrow> action list
     \<Rightarrow> (fault + ((addr \<Rightarrow> wait_record) \<times> action list)) option" where
  "wake_all_loop wm tcpu um wr h acts =
     (case wr of
        None \<Rightarrow> Some (Inr (h, acts))
      | Some a \<Rightarrow>
          (let next_wr = wr_next (h a) in
           case handoff wm um a of
             Inl f \<Rightarrow> Some (Inl f)
           | Inr act \<Rightarrow>
               if wm then
                 (case affinity_loop tcpu um (tcpu (thread (h a))) next_wr None next_wr h (acts @ [act]) of
                    None \<Rightarrow> None
                  | Some (Inl f) \<Rightarrow> Some (Inl f)
                  | Some (Inr (next_wr', h', acts')) \<Rightarrow> wake_all_loop wm tcpu um next_wr' h' acts')
               else wake_all_loop wm tcpu um next_wr h (acts @ [act])))"

declare wake_all_loop.simps [code]

definition condvar_wake_all ::
  "bool \<Rightarrow> (thread \<Rightarrow> cpu) \<Rightarrow> state \<Rightarrow> (fault + (state \<times> action list)) option" where
  "condvar_wake_all wm tcpu s =
     (if oldest s = None then Some (Inr (s, []))
      else
        (let wr = oldest s;
             um = user_mutex s;
             s1 = (if wm then s\<lparr>user_mutex := None\<rparr> else s);
             s2 = s1\<lparr>oldest := None, newest := None\<rparr>
         in case wake_all_loop wm tcpu um wr (heap s2) [] of
              None \<Rightarrow> None
            | Some (Inl f) \<Rightarrow> Some (Inl f)
            | Some (Inr (h, acts)) \<Rightarrow> Some (Inr (s2\<lparr>heap := h\<rparr>, acts))))"

subsection \<open>The list held by the FIFO\<close>

text \<open>
  \<open>lseg h p xs q\<close>: following the \<^verbatim>\<open>next\<close> links of memory \<open>h\<close> from pointer \<open>p\<close>
  visits exactly the records \<open>xs\<close>, in this order, and then arrives at \<open>q\<close>.
\<close>

fun lseg :: "(addr \<Rightarrow> wait_record) \<Rightarrow> ptr \<Rightarrow> addr list \<Rightarrow> ptr \<Rightarrow> bool" where
  "lseg h p [] q = (p = q)"
| "lseg h p (a # as) q = (p = Some a \<and> lseg h (wr_next (h a)) as q)"

text \<open>
  The FIFO of state \<open>s\<close> is well formed and holds the records \<open>xs\<close>, oldest first:
  the links lead from \<^verbatim>\<open>oldest\<close> through \<open>xs\<close> to \<^verbatim>\<open>nullptr\<close>, no record occurs
  twice, and \<^verbatim>\<open>newest\<close> is the last record, or null when there is none.
\<close>

definition fifo_wf :: "state \<Rightarrow> addr list \<Rightarrow> bool" where
  "fifo_wf s xs =
     (lseg (heap s) (oldest s) xs None \<and> distinct xs \<and>
      newest s = (if xs = [] then None else Some (last xs)))"

text \<open>The record that an action hands off, if it is a hand-off.\<close>

fun handed :: "action \<Rightarrow> addr option" where
  "handed (SendLock u a) = Some a"
| "handed (Wake a) = Some a"
| "handed _ = None"

text \<open>The actions by which condvar\_wait takes the user mutex back.\<close>

fun reacquires :: "action \<Rightarrow> bool" where
  "reacquires (MutexLock m) = True"
| "reacquires (ReceiveLock u) = True"
| "reacquires _ = False"

text \<open>
  The remembered user mutex is set whenever a record is enqueued (it is then safe for
  condvar\_wake\_one to call through it).
\<close>

definition um_inv :: "state \<Rightarrow> bool" where
  "um_inv s = (oldest s \<noteq> None \<longrightarrow> user_mutex s \<noteq> None)"

subsection \<open>What condvar.cc relies on from its collaborators\<close>

text \<open>
  Modelled from the spec: \<^verbatim>\<open>wait_record::wait(tmr)\<close> (not in condvar.cc) blocks until
  \<^verbatim>\<open>woken\<close> is true or the timer fires; without a timer there is no timeout. So a
  return of \<^verbatim>\<open>wait(tmr)\<close> that finds \<^verbatim>\<open>woken()\<close> equal to \<open>wk\<close> is possible only if
  \<open>wk\<close> holds or a timer was given.
\<close>

definition wait_returns :: "64 word option \<Rightarrow> bool \<Rightarrow> bool" where
  "wait_returns tmr wk = (wk \<or> tmr \<noteq> None)"

text \<open>
  Modelled from the spec: the owner of the user mutex (the mutex is not in condvar.cc).
  \<^verbatim>\<open>lock()\<close> returns with the calling thread \<open>t\<close> as owner; \<^verbatim>\<open>receive_lock()\<close> only
  updates the caller's bookkeeping and does not block, so the owner stays as it is.
\<close>

fun owner_after :: "thread \<Rightarrow> thread option \<Rightarrow> action \<Rightarrow> thread option" where
  "owner_after t ow (MutexLock m) = Some t"
| "owner_after t ow (ReceiveLock u) = ow"
| "owner_after t ow _ = ow"

subsection \<open>Example states\<close>

definition mem0 :: "addr \<Rightarrow> wait_record" where
  "mem0 = (\<lambda>_. wait_record_new 0)"

text \<open>No waiter, no remembered mutex.\<close>

definition st_empty :: state where
  "st_empty = \<lparr>oldest = None, newest = None, user_mutex = None, heap = mem0\<rparr>"

text \<open>
  Three waiters at addresses 1, 2, 3 (threads 11, 12, 13), enqueued in this order with
  the user mutex at address 5.
\<close>

definition st_three :: state where
  "st_three = \<lparr>oldest = Some 1, newest = Some 3, user_mutex = Some 5,
     heap = mem0(1 := \<lparr>thread = 11, wr_next = Some 2\<rparr>,
                 2 := \<lparr>thread = 12, wr_next = Some 3\<rparr>,
                 3 := \<lparr>thread = 13, wr_next = None\<rparr>)\<rparr>"

text \<open>Threads 11 and 13 run on CPU 0, every other thread on CPU 1.\<close>

definition cpu_of :: "thread \<Rightarrow> cpu" where
  "cpu_of t = (if t = 11 \<or> t = 13 then 0 else 1)"

text \<open>
  Two runs as a waiter may see them. Signalled: another thread has dequeued the waiter's
  record (the only one) and handed it off before \<^verbatim>\<open>wait\<close> returns. Timed out: nobody
  touched the condvar, the timer fired.
\<close>

definition env_signalled :: env where
  "env_signalled = \<lparr>woken_after_wait = True,
     others = (\<lambda>s. s\<lparr>oldest := None, newest := None, user_mutex := None\<rparr>),
     woken_at_exit = True\<rparr>"

definition env_timed_out :: env where
  "env_timed_out = \<lparr>woken_after_wait = False, others = (\<lambda>s. s), woken_at_exit = False\<rparr>"

text \<open>
  Timer fired, but before the waiter takes the internal mutex again another thread
  dequeues its record; the hand-off lands during the second \<^verbatim>\<open>wait\<close>.
\<close>

definition env_race_lost :: env where
  "env_race_lost = \<lparr>woken_after_wait = False,
     others = (\<lambda>s. s\<lparr>oldest := None, newest := None, user_mutex := None\<rparr>),
     woken_at_exit = True\<rparr>"

section \<open>Properties\<close>

subsection \<open>Lists in memory\<close>

lemma lseg_append: "lseg h p (xs @ ys) q = (\<exists>m. lseg h p xs m \<and> lseg h m ys q)"
  by (induction xs arbitrary: p) auto

lemma lseg_upd: "a \<notin> set xs \<Longrightarrow> lseg (h(a := r)) p xs q = lseg h p xs q"
  by (induction xs arbitrary: p) auto

lemma lseg_snoc: "lseg h p (xs @ [a]) q = (lseg h p xs (Some a) \<and> wr_next (h a) = q)"
  by (auto simp: lseg_append)

lemma fifo_wf_null_iff: "fifo_wf s xs \<Longrightarrow> (oldest s = None) = (newest s = None)"
  by (cases xs) (auto simp: fifo_wf_def)

lemma fifo_wf_Nil: "fifo_wf s [] = (oldest s = None \<and> newest s = None)"
  by (auto simp: fifo_wf_def)

lemma fifo_wf_oldest: "fifo_wf s xs \<Longrightarrow> oldest s = (if xs = [] then None else Some (hd xs))"
  by (cases xs) (auto simp: fifo_wf_def)

subsection \<open>Enqueue\<close>

lemma enqueue_wf:
  assumes "fifo_wf s xs" "w \<notin> set xs" "condvar_wait_enqueue wm w t um s = Inr s'"
  shows "fifo_wf s' (xs @ [w])"
proof (cases xs rule: rev_cases)
  case Nil
  with assms show ?thesis
    by (auto simp: fifo_wf_def condvar_wait_enqueue_def fifo_append_def wait_record_new_def Let_def
        split: if_splits)
next
  case (snoc ys n)
  with assms have n: "newest s = Some n" and o: "oldest s \<noteq> None" 
    and seg: "lseg (heap s) (oldest s) ys (Some n)" and nn: "n \<notin> set ys" "w \<noteq> n" "w \<notin> set ys" "distinct ys"
    by (cases ys; auto simp: fifo_wf_def lseg_snoc)+
  from assms(3) n o nn(2) have s': "oldest s' = oldest s" "newest s' = Some w"
     "heap s' = ((heap s)(w := wait_record_new t))(n := (heap s n)\<lparr>wr_next := Some w\<rparr>)"
    by (auto simp: condvar_wait_enqueue_def fifo_append_def Let_def split: if_splits)
  show ?thesis unfolding fifo_wf_def s' snoc using seg nn
    by (auto simp: lseg_append lseg_upd wait_record_new_def)
qed


subsection \<open>Waking one\<close>

lemma wake_one_spec:
  assumes "fifo_wf s xs" "wm \<longrightarrow> xs \<noteq> [] \<longrightarrow> user_mutex s \<noteq> None"
  shows "\<exists>s'. condvar_wake_one wm s =
            Inr (s', case xs of [] \<Rightarrow> [] | a # _ \<Rightarrow> [if wm then SendLock (the (user_mutex s)) a else Wake a])
          \<and> fifo_wf s' (tl xs) \<and> heap s' = heap s
          \<and> user_mutex s' = (if wm \<and> length xs = 1 then None else user_mutex s)"
proof (cases xs)
  case Nil
  with assms show ?thesis by (auto simp: fifo_wf_def condvar_wake_one_def)
next
  case (Cons a ys)
  with assms have o: "oldest s = Some a" and seg: "lseg (heap s) (wr_next (heap s a)) ys None"
    and d: "distinct ys" and n: "newest s = Some (last (a # ys))"
    by (auto simp: fifo_wf_def)
  have nx: "(wr_next (heap s a) = None) = (ys = [])" using seg by (cases ys) auto
  show ?thesis
  proof (cases ys)
    case Nil
    with Cons assms o seg show ?thesis
      by (auto simp: fifo_wf_def condvar_wake_one_def handoff_def Let_def)
  next
    case (Cons b zs)
    with \<open>xs = a # ys\<close> assms o seg d n show ?thesis
      by (auto simp: fifo_wf_def condvar_wake_one_def handoff_def Let_def)
  qed
qed

lemma wake_one_fault:
  assumes "fifo_wf s xs" "xs \<noteq> []" "user_mutex s = None"
  shows "condvar_wake_one True s = Inl NullDeref"
  using assms by (cases xs) (auto simp: fifo_wf_def condvar_wake_one_def handoff_def Let_def)

lemma wake_one_wf:
  assumes "fifo_wf s xs" "condvar_wake_one wm s = Inr (s', acts)"
  shows "fifo_wf s' (tl xs) \<and> heap s' = heap s"
proof (cases "wm \<longrightarrow> xs \<noteq> [] \<longrightarrow> user_mutex s \<noteq> None")
  case True
  from wake_one_spec[OF assms(1) True] assms(2) show ?thesis by auto
next
  case False
  with wake_one_fault[OF assms(1)] assms(2) show ?thesis by auto
qed

subsection \<open>Removal after a timeout\<close>

lemma unlink_loop_spec:
  assumes "lseg (heap s) (oldest s) pre p" "lseg (heap s) p ys None" "distinct (pre @ ys)"
    "newest s = (if pre @ ys = [] then None else Some (last (pre @ ys)))"
    "w \<notin> set pre" "ys \<noteq> [] \<longrightarrow> hd ys \<noteq> w"
  shows "(w \<in> set ys \<longrightarrow> (\<exists>a s'. unlink_loop w p s = Some (Some a, s') \<and> fifo_wf s' (pre @ remove1 w ys)
             \<and> user_mutex s' = user_mutex s))
       \<and> (w \<notin> set ys \<longrightarrow> unlink_loop w p s = Some (None, s))"
  using assms
proof (induction ys arbitrary: pre p)
  case Nil
  then show ?case by (simp add: unlink_loop.simps)
next
  case (Cons a zs)
  from Cons.prems have p: "p = Some a" and aw: "a \<noteq> w" 
    and zseg: "lseg (heap s) (wr_next (heap s a)) zs None" by auto
  show ?case
  proof (cases "wr_next (heap s a) = Some w")
    case True
    with zseg obtain zs' where zs: "zs = w # zs'" and z'seg: "lseg (heap s) (wr_next (heap s w)) zs' None"
      by (cases zs) auto
    let ?nn = "wr_next (heap s w)"
    let ?s1 = "s\<lparr>heap := (heap s)(a := (heap s a)\<lparr>wr_next := ?nn\<rparr>)\<rparr>"
    let ?s' = "if ?nn = None then ?s1\<lparr>newest := Some a\<rparr> else ?s1"
    have res: "unlink_loop w p s = Some (Some a, ?s')"
      using p True by (subst unlink_loop.simps) (simp add: Let_def)
    have nn: "(?nn = None) = (zs' = [])" using z'seg by (cases zs') auto
    have d: "a \<notin> set pre" "a \<notin> set zs'" "distinct (pre @ a # zs')" using Cons.prems(3) zs by auto
    have "lseg (heap ?s') (oldest ?s') (pre @ a # zs') None"
      using Cons.prems(1) p z'seg d by (auto simp: lseg_append lseg_upd)
    moreover have "newest ?s' = Some (last (pre @ a # zs'))"
      using Cons.prems(4) zs nn by auto
    ultimately have "fifo_wf ?s' (pre @ a # zs')" using d by (simp add: fifo_wf_def)
    moreover have "remove1 w (a # zs) = a # zs'" using aw zs by simp
    moreover have "user_mutex ?s' = user_mutex s" by simp
    ultimately show ?thesis using res zs by auto
  next
    case False
    have step: "unlink_loop w p s = unlink_loop w (wr_next (heap s a)) s"
      using p False by (subst unlink_loop.simps) simp
    have hdz: "zs \<noteq> [] \<longrightarrow> hd zs \<noteq> w" using False zseg by (cases zs) auto
    have "lseg (heap s) (oldest s) (pre @ [a]) (wr_next (heap s a))"
      using Cons.prems(1) p by (simp add: lseg_snoc)
    from Cons.IH[OF this zseg _ _ _ hdz] Cons.prems aw
    show ?thesis unfolding step by auto
  qed
qed

lemma timeout_spec:
  assumes "fifo_wf s xs"
  shows "(w \<in> set xs \<longrightarrow> (\<exists>s'. condvar_wait_timeout w s = Some (ETIMEDOUT, s') \<and> fifo_wf s' (remove1 w xs)
             \<and> user_mutex s' = user_mutex s))
       \<and> (w \<notin> set xs \<longrightarrow> condvar_wait_timeout w s = Some (0, s))"
proof (cases "Some w = oldest s")
  case True
  with assms obtain ys where xs: "xs = w # ys" by (cases xs) (auto simp: fifo_wf_def)
  with assms have seg: "lseg (heap s) (wr_next (heap s w)) ys None" and d: "distinct ys" "w \<notin> set ys"
    and n: "newest s = Some (last (w # ys))" by (auto simp: fifo_wf_def)
  have nx: "(wr_next (heap s w) = None) = (ys = [])" using seg by (cases ys) auto
  show ?thesis using True xs seg d n nx
    by (auto simp: condvar_wait_timeout_def Let_def fifo_wf_def)
next
  case False
  with assms have hd: "xs \<noteq> [] \<longrightarrow> hd xs \<noteq> w" by (cases xs) (auto simp: fifo_wf_def)
  have "lseg (heap s) (oldest s) [] (oldest s)" by simp
  from unlink_loop_spec[OF this, of xs w] assms hd
  have "(w \<in> set xs \<longrightarrow> (\<exists>a s'. unlink_loop w (oldest s) s = Some (Some a, s') \<and> fifo_wf s' (remove1 w xs)
             \<and> user_mutex s' = user_mutex s))
       \<and> (w \<notin> set xs \<longrightarrow> unlink_loop w (oldest s) s = Some (None, s))"
    by (auto simp: fifo_wf_def)
  then show ?thesis using False
    by (auto simp: condvar_wait_timeout_def ETIMEDOUT_def)
qed


subsection \<open>Waking all\<close>

lemma affinity_loop_spec:
  assumes "lseg h next_wr ks r" "lseg h r rs None" "distinct (ks @ rs)"
    "ks \<noteq> [] \<longrightarrow> prevr = Some (last ks)" "\<forall>b. thread (h b) = tf b"
  shows "\<exists>nw h'. affinity_loop tcpu (Some m) c r prevr next_wr h acts =
            Some (Inr (nw, h', acts @ map (SendLock m) (filter (\<lambda>b. tcpu (tf b) = c) rs)))
          \<and> lseg h' nw (ks @ filter (\<lambda>b. tcpu (tf b) \<noteq> c) rs) None
          \<and> (\<forall>b. thread (h' b) = tf b)"
  using assms
proof (induction rs arbitrary: ks r prevr next_wr h acts)
  case Nil
  then show ?case by (subst affinity_loop.simps) simp
next
  case (Cons a rs)
  from Cons.prems have r: "r = Some a" and rseg: "lseg h (wr_next (h a)) rs None" 
    and tf: "thread (h a) = tf a" by auto
  let ?nextr = "wr_next (h a)"
  show ?case
  proof (cases "tcpu (tf a) = c")
    case False
    have step: "affinity_loop tcpu (Some m) c r prevr next_wr h acts
        = affinity_loop tcpu (Some m) c ?nextr (Some a) next_wr h acts"
      using r False tf by (subst affinity_loop.simps) (simp add: Let_def)
    have "lseg h next_wr (ks @ [a]) ?nextr" using Cons.prems(1) r by (simp add: lseg_snoc)
    from Cons.IH[OF this rseg, of "Some a" acts] Cons.prems(3,5) False
    show ?thesis unfolding step by auto
  next
    case True
    show ?thesis
    proof (cases "ks = []")
      case knil: True
      with Cons.prems(1) have nw: "next_wr = r" by simp
      have step: "affinity_loop tcpu (Some m) c r prevr next_wr h acts
          = affinity_loop tcpu (Some m) c ?nextr prevr ?nextr h (acts @ [SendLock m a])"
        using r True nw tf by (subst affinity_loop.simps) (simp add: Let_def handoff_def)
      have "lseg h ?nextr [] ?nextr" by simp
      from Cons.IH[OF this rseg, of prevr "acts @ [SendLock m a]"] Cons.prems(3,5) True knil
      show ?thesis unfolding step by auto
    next
      case False
      then obtain ks0 p where ks: "ks = ks0 @ [p]" by (cases ks rule: rev_cases) auto
      with Cons.prems have prevr: "prevr = Some p" and k0: "lseg h next_wr ks0 (Some p)"
        and pn: "wr_next (h p) = r" and d: "p \<notin> set ks0" "p \<notin> set rs" "p \<noteq> a"
        by (auto simp: lseg_snoc)
      have ne: "r \<noteq> next_wr" using Cons.prems(1,3) r ks by (cases ks0) auto
      let ?h = "h(p := (h p)\<lparr>wr_next := ?nextr\<rparr>)"
      have step: "affinity_loop tcpu (Some m) c r prevr next_wr h acts
          = affinity_loop tcpu (Some m) c ?nextr prevr next_wr ?h (acts @ [SendLock m a])"
        using r True ne prevr tf by (subst affinity_loop.simps) (simp add: Let_def handoff_def)
      have 1: "lseg ?h next_wr ks ?nextr" using k0 d ks by (simp add: lseg_snoc lseg_upd)
      have 2: "lseg ?h ?nextr rs None" using rseg d by (simp add: lseg_upd)
      have 3: "distinct (ks @ rs)" using Cons.prems(3) by simp
      have 5: "\<forall>b. thread (?h b) = tf b" using Cons.prems(5) by simp
      have f1: "filter (\<lambda>b. tcpu (tf b) = c) (a # rs) = a # filter (\<lambda>b. tcpu (tf b) = c) rs"
        and f2: "filter (\<lambda>b. tcpu (tf b) \<noteq> c) (a # rs) = filter (\<lambda>b. tcpu (tf b) \<noteq> c) rs"
        using True by simp_all
      have ap: "acts @ map (SendLock m) (a # ys) = (acts @ [SendLock m a]) @ map (SendLock m) ys" for ys
        by simp
      show ?thesis unfolding step f1 f2 ap
        by (rule Cons.IH[OF 1 2 3 Cons.prems(4) 5, of "acts @ [SendLock m a]"])
    qed
  qed
qed

lemma wake_all_loop_morph:
  assumes "lseg h wr xs None" "distinct xs"
  shows "\<exists>h' ys. wake_all_loop True tcpu (Some m) wr h acts = Some (Inr (h', acts @ map (SendLock m) ys))
          \<and> mset ys = mset xs"
  using assms
proof (induction "length xs" arbitrary: xs wr h acts rule: less_induct)
  case less
  show ?case
  proof (cases xs)
    case Nil
    with less.prems show ?thesis by (subst wake_all_loop.simps) simp
  next
    case (Cons a rest)
    with less.prems have wr: "wr = Some a" and rseg: "lseg h (wr_next (h a)) rest None"
      and d: "distinct rest" by auto
    let ?c = "tcpu (thread (h a))"
    let ?same = "filter (\<lambda>b. tcpu (thread (h b)) = ?c) rest"
    let ?other = "filter (\<lambda>b. tcpu (thread (h b)) \<noteq> ?c) rest"
    have "lseg h (wr_next (h a)) [] (wr_next (h a))" by simp
    from affinity_loop_spec[OF this rseg, of None "\<lambda>b. thread (h b)" tcpu m ?c "acts @ [SendLock m a]"] d
    obtain nw h' where inner: "affinity_loop tcpu (Some m) ?c (wr_next (h a)) None (wr_next (h a)) h
          (acts @ [SendLock m a]) = Some (Inr (nw, h', (acts @ [SendLock m a]) @ map (SendLock m) ?same))"
      and oseg: "lseg h' nw ?other None" by auto
    have step: "wake_all_loop True tcpu (Some m) wr h acts
        = wake_all_loop True tcpu (Some m) nw h' ((acts @ [SendLock m a]) @ map (SendLock m) ?same)"
      using wr inner by (subst wake_all_loop.simps) (simp add: Let_def handoff_def)
    have "length ?other < length xs" using Cons by (simp add: le_imp_less_Suc)
    from less.hyps[OF this oseg, of "(acts @ [SendLock m a]) @ map (SendLock m) ?same"] d
    obtain h'' ys where r: "wake_all_loop True tcpu (Some m) nw h' ((acts @ [SendLock m a]) @ map (SendLock m) ?same)
        = Some (Inr (h'', ((acts @ [SendLock m a]) @ map (SendLock m) ?same) @ map (SendLock m) ys))"
      and ms: "mset ys = mset ?other" by auto
    have "mset (a # ?same @ ys) = mset xs"
      using ms Cons by (simp add: not_def[symmetric] comp_def)
    moreover have "wake_all_loop True tcpu (Some m) wr h acts
        = Some (Inr (h'', acts @ map (SendLock m) (a # ?same @ ys)))"
      unfolding step r by simp
    ultimately show ?thesis by blast
  qed
qed

lemma wake_all_loop_plain:
  assumes "lseg h wr xs None"
  shows "wake_all_loop False tcpu um wr h acts = Some (Inr (h, acts @ map Wake xs))"
  using assms
proof (induction xs arbitrary: wr acts)
  case Nil
  then show ?case by (subst wake_all_loop.simps) simp
next
  case (Cons a xs)
  then have wr: "wr = Some a" and rseg: "lseg h (wr_next (h a)) xs None" by auto
  have "wake_all_loop False tcpu um wr h acts = wake_all_loop False tcpu um (wr_next (h a)) h (acts @ [Wake a])"
    using wr by (subst wake_all_loop.simps) (simp add: Let_def handoff_def)
  with Cons.IH[OF rseg, of "acts @ [Wake a]"] show ?case by simp
qed

lemma wake_all_spec:
  assumes "fifo_wf s xs" "wm \<longrightarrow> xs \<noteq> [] \<longrightarrow> user_mutex s \<noteq> None"
  shows "\<exists>s' ys. condvar_wake_all wm tcpu s =
            Some (Inr (s', map (\<lambda>a. if wm then SendLock (the (user_mutex s)) a else Wake a) ys))
          \<and> mset ys = mset xs \<and> (\<not> wm \<longrightarrow> ys = xs) \<and> fifo_wf s' []
          \<and> user_mutex s' = (if wm \<and> xs \<noteq> [] then None else user_mutex s)"
proof (cases xs)
  case Nil
  with assms(1) have "condvar_wake_all wm tcpu s = Some (Inr (s, []))" "fifo_wf s []"
    by (auto simp: fifo_wf_def condvar_wake_all_def)
  with Nil show ?thesis by auto
next
  case (Cons a rest)
  with assms(1) have o: "oldest s \<noteq> None" and seg: "lseg (heap s) (oldest s) xs None"
    and d: "distinct xs" by (auto simp: fifo_wf_def)
  show ?thesis
  proof (cases wm)
    case True
    with assms(2) Cons obtain m where m: "user_mutex s = Some m" by auto
    from wake_all_loop_morph[OF seg d, of tcpu m "[]"]
    obtain h' ys where "wake_all_loop True tcpu (Some m) (oldest s) (heap s) [] = Some (Inr (h', map (SendLock m) ys))"
      and "mset ys = mset xs" by auto
    with True o m Cons show ?thesis
      by (auto simp: condvar_wake_all_def Let_def fifo_wf_def)
  next
    case False
    from wake_all_loop_plain[OF seg, of tcpu "user_mutex s" "[]"] False o Cons
    show ?thesis
      by (auto simp: condvar_wake_all_def Let_def fifo_wf_def)
  qed
qed

lemma wake_all_fault:
  assumes "fifo_wf s xs" "xs \<noteq> []" "user_mutex s = None"
  shows "condvar_wake_all True tcpu s = Some (Inl NullDeref)"
proof -
  from assms obtain a where "oldest s = Some a" by (cases xs) (auto simp: fifo_wf_def)
  moreover have "wake_all_loop True tcpu None (Some a) h [] = Some (Inl NullDeref)" for h
    by (subst wake_all_loop.simps) (simp add: handoff_def)
  ultimately show ?thesis using assms(3) by (simp add: condvar_wake_all_def Let_def)
qed

lemma wake_all_wf:
  assumes "fifo_wf s xs"
  shows "condvar_wake_all wm tcpu s \<noteq> None
       \<and> (\<forall>s' acts. condvar_wake_all wm tcpu s = Some (Inr (s', acts)) \<longrightarrow> fifo_wf s' [])"
proof (cases "wm \<longrightarrow> xs \<noteq> [] \<longrightarrow> user_mutex s \<noteq> None")
  case True
  from wake_all_spec[OF assms True, of tcpu] show ?thesis by auto
next
  case False
  with wake_all_fault[OF assms, of tcpu] show ?thesis by auto
qed

lemma filter_eq_distinct:
  "distinct ys \<Longrightarrow> a \<in> set ys \<Longrightarrow> length (filter (\<lambda>b. b = a) ys) = 1"
proof (induction ys)
  case Nil
  then show ?case by simp
next
  case (Cons y ys)
  have "a \<notin> set ys \<Longrightarrow> filter (\<lambda>b. b = a) ys = []" by (induction ys) auto
  with Cons show ?case by auto
qed

subsection \<open>The example states\<close>

lemma st_three_wf: "fifo_wf st_three [1, 2, 3]"
  by (simp add: st_three_def fifo_wf_def)

section \<open>The claims\<close>

subsection \<open>C7: the assertion on the remembered user mutex\<close>

text \<open>
  C7. Under \<^verbatim>\<open>WAIT_MORPHING\<close>, condvar\_wait aborts on its assertion exactly when the
  remembered user mutex is neither null nor the mutex supplied; when it is null or the
  supplied one, the call goes on and the supplied mutex is stored. An abort of the
  enqueue is an abort of condvar\_wait. (The link through \<^verbatim>\<open>newest\<close> at line 39 comes
  before the assertion, so head and tail are taken to be null together.)
\<close>

theorem condvar_wait_assert:
  assumes "(oldest s = None) = (newest s = None)"
  shows "(condvar_wait_enqueue True w t um s = Inl AssertFail)
           = (user_mutex s \<noteq> None \<and> user_mutex s \<noteq> um)
       \<and> (user_mutex s = None \<or> user_mutex s = um \<longrightarrow>
            (\<exists>s'. condvar_wait_enqueue True w t um s = Inr s' \<and> user_mutex s' = um
                \<and> newest s' = Some w))
       \<and> (user_mutex s \<noteq> None \<and> user_mutex s \<noteq> um \<longrightarrow>
            condvar_wait True e w t um tmr s = Some (Inl AssertFail))"
  using assms
  by (auto simp: condvar_wait_def condvar_wait_enqueue_def fifo_append_def Let_def
      split: option.splits)

text \<open>
  On the three waiters using mutex 5: a fourth waiter with mutex 6 aborts, one with
  mutex 5 proceeds; on the empty condvar any mutex is accepted.
\<close>

theorem condvar_wait_assert_witness:
  "condvar_wait_enqueue True 4 14 (Some 6) st_three = Inl AssertFail
   \<and> (\<exists>s'. condvar_wait_enqueue True 4 14 (Some 5) st_three = Inr s' \<and> user_mutex s' = Some 5
         \<and> newest s' = Some 4)
   \<and> (\<exists>s'. condvar_wait_enqueue True 1 11 (Some 6) st_empty = Inr s' \<and> user_mutex s' = Some 6
         \<and> newest s' = Some 1)
   \<and> condvar_wait True env_timed_out 4 14 (Some 6) (Some 100) st_three = Some (Inl AssertFail)"
  using condvar_wait_assert [of st_three 4 14 "Some 6" env_timed_out "Some 100"]
    condvar_wait_assert [of st_three 4 14 "Some 5" env_timed_out "Some 100"]
    condvar_wait_assert [of st_empty 1 11 "Some 6" env_timed_out "Some 100"]
  by (simp add: st_three_def st_empty_def)

subsection \<open>C8: enqueue, then wake one\<close>

text \<open>
  C8. On an empty FIFO condvar\_wake\_one changes nothing and calls nothing. And on an
  empty FIFO the enqueue of condvar\_wait succeeds and leaves exactly the waiter's record
  in the FIFO, and one condvar\_wake\_one after it succeeds, makes one call, the
  hand-off of that record, and leaves \<^verbatim>\<open>oldest\<close> and \<^verbatim>\<open>newest\<close> null. Under
  \<^verbatim>\<open>WAIT_MORPHING\<close> this is for a waiter whose user mutex is not null
  (condvar\_wake\_one calls through it) and passes the assertion of line 45: the
  remembered mutex is null or the waiter's.
\<close>

theorem enqueue_wake_one_empty:
  assumes "fifo_wf s []"
  shows "condvar_wake_one wm s = Inr (s, [])
       \<and> ((wm \<longrightarrow> um \<noteq> None \<and> (user_mutex s = None \<or> user_mutex s = um)) \<longrightarrow>
            (\<exists>s1 s2. condvar_wait_enqueue wm w t um s = Inr s1 \<and> fifo_wf s1 [w]
                \<and> condvar_wake_one wm s1
                     = Inr (s2, [if wm then SendLock (the um) w else Wake w])
                \<and> handed (if wm then SendLock (the um) w else Wake w) = Some w
                \<and> oldest s2 = None \<and> newest s2 = None \<and> fifo_wf s2 []))"
proof -
  from assms have e: "oldest s = None" "newest s = None" by (simp_all add: fifo_wf_def)
  then have 1: "condvar_wake_one wm s = Inr (s, [])" by (simp add: condvar_wake_one_def)
  have 2: "\<exists>s1 s2. condvar_wait_enqueue wm w t um s = Inr s1 \<and> fifo_wf s1 [w]
        \<and> condvar_wake_one wm s1 = Inr (s2, [if wm then SendLock (the um) w else Wake w])
        \<and> handed (if wm then SendLock (the um) w else Wake w) = Some w
        \<and> oldest s2 = None \<and> newest s2 = None \<and> fifo_wf s2 []"
    if h: "wm \<longrightarrow> um \<noteq> None \<and> (user_mutex s = None \<or> user_mutex s = um)"
  proof -
    let ?s1 = "s\<lparr>heap := (heap s)(w := wait_record_new t), oldest := Some w, newest := Some w,
                  user_mutex := (if wm then um else user_mutex s)\<rparr>"
    have enq: "condvar_wait_enqueue wm w t um s = Inr ?s1"
      using e h by (auto simp: condvar_wait_enqueue_def fifo_append_def Let_def)
    have wf1: "fifo_wf ?s1 [w]" by (simp add: fifo_wf_def wait_record_new_def)
    have um1: "wm \<longrightarrow> [w] \<noteq> [] \<longrightarrow> user_mutex ?s1 \<noteq> None" using h by simp
    from wake_one_spec[OF wf1 um1] obtain s2 where
      wk: "condvar_wake_one wm ?s1 = Inr (s2, [if wm then SendLock (the (user_mutex ?s1)) w else Wake w])"
      and wf2: "fifo_wf s2 []" by auto
    have "(if wm then SendLock (the (user_mutex ?s1)) w else Wake w)
        = (if wm then SendLock (the um) w else Wake w)" by simp
    with wk have wk': "condvar_wake_one wm ?s1 = Inr (s2, [if wm then SendLock (the um) w else Wake w])"
      by simp
    from wf2 have "oldest s2 = None" "newest s2 = None" by (simp_all add: fifo_wf_def)
    with enq wf1 wk' wf2 show ?thesis by (intro exI[of _ ?s1] exI[of _ s2]) simp
  qed
  from 1 2 show ?thesis by blast
qed

text \<open>
  On the empty condvar: waking one does nothing; the waiter of record 1 (thread 11,
  mutex 5) is enqueued, and waking one then hands record 1 off through mutex 5 and
  leaves the FIFO empty. The same with \<^verbatim>\<open>WAIT_MORPHING\<close> off, by \<^verbatim>\<open>wake()\<close>.
\<close>

theorem enqueue_wake_one_empty_witness:
  "condvar_wake_one True st_empty = Inr (st_empty, [])
   \<and> (\<exists>s1 s2. condvar_wait_enqueue True 1 11 (Some 5) st_empty = Inr s1 \<and> fifo_wf s1 [1]
         \<and> condvar_wake_one True s1 = Inr (s2, [SendLock 5 1])
         \<and> oldest s2 = None \<and> newest s2 = None)
   \<and> (\<exists>s1 s2. condvar_wait_enqueue False 1 11 (Some 5) st_empty = Inr s1 \<and> fifo_wf s1 [1]
         \<and> condvar_wake_one False s1 = Inr (s2, [Wake 1])
         \<and> oldest s2 = None \<and> newest s2 = None)"
proof -
  have w: "fifo_wf st_empty []" by (simp add: fifo_wf_def st_empty_def)
  have u: "user_mutex st_empty = None" by (simp add: st_empty_def)
  have a: "condvar_wake_one True st_empty = Inr (st_empty, [])
      \<and> (\<exists>s1 s2. condvar_wait_enqueue True 1 11 (Some 5) st_empty = Inr s1 \<and> fifo_wf s1 [1]
         \<and> condvar_wake_one True s1 = Inr (s2, [SendLock 5 1])
         \<and> oldest s2 = None \<and> newest s2 = None)"
    using enqueue_wake_one_empty [OF w, of True "Some 5" 1 11] u by auto
  have b: "\<exists>s1 s2. condvar_wait_enqueue False 1 11 (Some 5) st_empty = Inr s1 \<and> fifo_wf s1 [1]
         \<and> condvar_wake_one False s1 = Inr (s2, [Wake 1])
         \<and> oldest s2 = None \<and> newest s2 = None"
    using enqueue_wake_one_empty [OF w, of False "Some 5" 1 11] by auto
  from a b show ?thesis by blast
qed

subsection \<open>C5: condvar\_wake\_one takes the oldest record\<close>

text \<open>
  C5. On a well-formed FIFO holding the records \<open>xs\<close> (oldest first; condvar\_wait appends
  at the end, see \<open>enqueue_wf\<close>), condvar\_wake\_one hands off exactly the first record
  of \<open>xs\<close> when there is one, and nothing otherwise; the FIFO then holds the rest of
  \<open>xs\<close> in the same order, and an empty FIFO leaves the state as it was. (Under
  \<^verbatim>\<open>WAIT_MORPHING\<close> the hand-off goes through the remembered mutex, which is taken to
  be set when a record is enqueued.)
\<close>

theorem condvar_wake_one_fifo:
  assumes "fifo_wf s xs" "wm \<longrightarrow> xs \<noteq> [] \<longrightarrow> user_mutex s \<noteq> None"
  shows "\<exists>s' acts. condvar_wake_one wm s = Inr (s', acts)
          \<and> map handed acts = map Some (take 1 xs)
          \<and> fifo_wf s' (tl xs)
          \<and> (xs = [] \<longrightarrow> s' = s)"
proof (cases xs)
  case Nil
  with assms(1) show ?thesis by (auto simp: fifo_wf_def condvar_wake_one_def)
next
  case (Cons a ys)
  from wake_one_spec[OF assms] Cons show ?thesis by auto
qed

text \<open>On the three waiters: record 1 is handed off, records 2 and 3 stay, in this order.\<close>

theorem condvar_wake_one_fifo_witness:
  "\<exists>s' acts. condvar_wake_one True st_three = Inr (s', acts)
      \<and> map handed acts = [Some 1] \<and> fifo_wf s' [2, 3]"
  using condvar_wake_one_fifo [of st_three "[1, 2, 3]" True]
  by (simp add: st_three_def fifo_wf_def)

subsection \<open>C3: the FIFO stays well formed\<close>

text \<open>
  C3. A well-formed FIFO has \<^verbatim>\<open>oldest\<close> null exactly when \<^verbatim>\<open>newest\<close> is null, and every
  operation leaves it well formed (a finite chain of links from \<^verbatim>\<open>oldest\<close> to
  \<^verbatim>\<open>nullptr\<close> that repeats no record, with \<^verbatim>\<open>newest\<close> the last record): the enqueue of
  condvar\_wait, for a record not already enqueued, appends it; condvar\_wake\_one drops
  the first record; condvar\_wake\_all returns and leaves the FIFO empty; the removal after
  a timeout returns and takes the waiter's record out, wherever it stands (head, interior
  or tail).
\<close>

theorem fifo_wf_preserved:
  assumes "fifo_wf s xs"
  shows "(oldest s = None) = (newest s = None)
     \<and> (\<forall>s'. w \<notin> set xs \<longrightarrow> condvar_wait_enqueue wm w t um s = Inr s' \<longrightarrow> fifo_wf s' (xs @ [w]))
     \<and> (\<forall>s' acts. condvar_wake_one wm s = Inr (s', acts) \<longrightarrow> fifo_wf s' (tl xs))
     \<and> condvar_wake_all wm tcpu s \<noteq> None
     \<and> (\<forall>s' acts. condvar_wake_all wm tcpu s = Some (Inr (s', acts)) \<longrightarrow> fifo_wf s' [])
     \<and> (\<exists>ret s'. condvar_wait_timeout w s = Some (ret, s') \<and> fifo_wf s' (remove1 w xs))"
proof -
  have "\<exists>ret s'. condvar_wait_timeout w s = Some (ret, s') \<and> fifo_wf s' (remove1 w xs)"
    using timeout_spec[OF assms, of w] assms by (cases "w \<in> set xs") (auto simp: remove1_idem)
  then show ?thesis
    using fifo_wf_null_iff[OF assms] enqueue_wf[OF assms] wake_one_wf[OF assms]
      wake_all_wf[OF assms, of wm tcpu]
    by blast
qed

text \<open>
  On the three waiters: a fourth is appended; waking one leaves 2 and 3; waking all leaves
  nothing; a timeout of record 1 (head), 2 (interior) or 3 (tail) leaves the other two.
\<close>

theorem fifo_wf_preserved_witness:
  "fifo_wf st_three [1, 2, 3]
   \<and> (\<exists>s'. condvar_wait_enqueue True 4 14 (Some 5) st_three = Inr s' \<and> fifo_wf s' [1, 2, 3, 4])
   \<and> (\<exists>s' acts. condvar_wake_one True st_three = Inr (s', acts) \<and> fifo_wf s' [2, 3])
   \<and> (\<exists>s' acts. condvar_wake_all True cpu_of st_three = Some (Inr (s', acts)) \<and> fifo_wf s' [])
   \<and> (\<exists>ret s'. condvar_wait_timeout 1 st_three = Some (ret, s') \<and> fifo_wf s' [2, 3])
   \<and> (\<exists>ret s'. condvar_wait_timeout 2 st_three = Some (ret, s') \<and> fifo_wf s' [1, 3])
   \<and> (\<exists>ret s'. condvar_wait_timeout 3 st_three = Some (ret, s') \<and> fifo_wf s' [1, 2])"
proof -
  have e: "\<exists>s'. condvar_wait_enqueue True 4 14 (Some 5) st_three = Inr s'"
    by (simp add: condvar_wait_enqueue_def fifo_append_def st_three_def)
  have o: "\<exists>s' acts. condvar_wake_one True st_three = Inr (s', acts)"
    by (simp add: condvar_wake_one_def handoff_def st_three_def Let_def)
  have a: "\<exists>s' acts. condvar_wake_all True cpu_of st_three = Some (Inr (s', acts))"
    using wake_all_spec [OF st_three_wf, of True cpu_of] by (auto simp: st_three_def)
  have p4: "(\<forall>s'. condvar_wait_enqueue True 4 14 (Some 5) st_three = Inr s' \<longrightarrow> fifo_wf s' [1, 2, 3, 4])
      \<and> (\<forall>s' acts. condvar_wake_one True st_three = Inr (s', acts) \<longrightarrow> fifo_wf s' [2, 3])
      \<and> (\<forall>s' acts. condvar_wake_all True cpu_of st_three = Some (Inr (s', acts)) \<longrightarrow> fifo_wf s' [])"
    using fifo_wf_preserved [OF st_three_wf, of 4 True 14 "Some 5" cpu_of] by simp
  have p1: "\<exists>ret s'. condvar_wait_timeout 1 st_three = Some (ret, s') \<and> fifo_wf s' [2, 3]"
    using fifo_wf_preserved [OF st_three_wf, of 1 True 14 "Some 5" cpu_of] by simp
  have p2: "\<exists>ret s'. condvar_wait_timeout 2 st_three = Some (ret, s') \<and> fifo_wf s' [1, 3]"
    using fifo_wf_preserved [OF st_three_wf, of 2 True 14 "Some 5" cpu_of] by simp
  have p3: "\<exists>ret s'. condvar_wait_timeout 3 st_three = Some (ret, s') \<and> fifo_wf s' [1, 2]"
    using fifo_wf_preserved [OF st_three_wf, of 3 True 14 "Some 5" cpu_of] by simp
  from st_three_wf e o a p4 p1 p2 p3 show ?thesis by blast
qed

subsection \<open>C4: condvar\_wake\_all hands every record off once\<close>

text \<open>
  C4. On a well-formed FIFO holding the records \<open>xs\<close>, condvar\_wake\_all returns, and the
  calls it makes are exactly one hand-off for each record of \<open>xs\<close>: as many calls as
  records, each call the hand-off of a record of \<open>xs\<close> (\<^verbatim>\<open>send_lock\<close> on the remembered
  mutex under \<^verbatim>\<open>WAIT_MORPHING\<close>, \<^verbatim>\<open>wake()\<close> otherwise), and each record handed off by
  exactly one call, whatever the CPUs of the threads are, so also for the records that the
  grouping loop takes out of the list early. Without \<^verbatim>\<open>WAIT_MORPHING\<close> the calls follow
  the order of the FIFO. (Under \<^verbatim>\<open>WAIT_MORPHING\<close> the remembered mutex is taken to be
  set when a record is enqueued.)
\<close>

theorem condvar_wake_all_hands_each_once:
  assumes "fifo_wf s xs" "wm \<longrightarrow> xs \<noteq> [] \<longrightarrow> user_mutex s \<noteq> None"
  shows "\<exists>s' acts. condvar_wake_all wm tcpu s = Some (Inr (s', acts))
          \<and> length acts = length xs
          \<and> (\<forall>x \<in> set acts. \<exists>a \<in> set xs. x = (if wm then SendLock (the (user_mutex s)) a else Wake a))
          \<and> (\<forall>a \<in> set xs. length (filter (\<lambda>x. handed x = Some a) acts) = 1)
          \<and> (\<not> wm \<longrightarrow> acts = map Wake xs)"
proof -
  let ?f = "\<lambda>a. if wm then SendLock (the (user_mutex s)) a else Wake a"
  from wake_all_spec[OF assms, of tcpu] obtain s' ys where
    r: "condvar_wake_all wm tcpu s = Some (Inr (s', map ?f ys))" and ms: "mset ys = mset xs"
    and pl: "\<not> wm \<longrightarrow> ys = xs" by blast
  from assms(1) have "distinct xs" by (simp add: fifo_wf_def)
  with ms have dy: "distinct ys" and sy: "set ys = set xs" and ly: "length ys = length xs"
    by (metis mset_eq_imp_distinct_iff, metis mset_eq_setD, metis mset_eq_length)
  have h: "handed (?f b) = Some b" for b by simp
  have "length (filter (\<lambda>x. handed x = Some a) (map ?f ys)) = 1" if "a \<in> set xs" for a
  proof -
    have "filter (\<lambda>x. handed x = Some a) (map ?f ys) = map ?f (filter (\<lambda>b. b = a) ys)"
      by (simp add: filter_map comp_def)
    moreover have "length (filter (\<lambda>b. b = a) ys) = 1"
      using dy that sy by (simp add: filter_eq_distinct)
    ultimately show ?thesis by simp
  qed
  moreover have "\<forall>x \<in> set (map ?f ys). \<exists>a \<in> set xs. x = ?f a" using sy by auto
  moreover have "\<not> wm \<longrightarrow> map ?f ys = map Wake xs" using pl by auto
  ultimately show ?thesis using r ly by (intro exI[of _ s'] exI[of _ "map ?f ys"]) simp
qed

text \<open>
  On the three waiters with threads 11 and 13 on one CPU: three calls, one for each of the
  records 1, 2, 3.
\<close>

theorem condvar_wake_all_hands_each_once_witness:
  "\<exists>s' acts. condvar_wake_all True cpu_of st_three = Some (Inr (s', acts))
      \<and> length acts = 3
      \<and> (\<forall>x \<in> set acts. x = SendLock 5 1 \<or> x = SendLock 5 2 \<or> x = SendLock 5 3)
      \<and> (\<forall>a \<in> {1, 2, 3}. length (filter (\<lambda>x. handed x = Some a) acts) = 1)"
proof -
  have um: "user_mutex st_three = Some 5" by (simp add: st_three_def)
  from condvar_wake_all_hands_each_once [OF st_three_wf, of True cpu_of] um
  obtain s' acts where r: "condvar_wake_all True cpu_of st_three = Some (Inr (s', acts))"
    and l: "length acts = length [1, 2, 3 :: nat]"
    and x: "\<forall>x \<in> set acts. \<exists>a \<in> set [1, 2, 3]. x = SendLock 5 a"
    and c: "\<forall>a \<in> set [1, 2, 3]. length (filter (\<lambda>x. handed x = Some a) acts) = 1"
    by auto
  from l x c show ?thesis unfolding r by (intro exI[of _ s'] exI[of _ acts]) auto
qed


subsection \<open>C1: a timeout that loses the race against a signal\<close>

text \<open>
  C1. Let \<^verbatim>\<open>wr.wait(tmr)\<close> return with \<^verbatim>\<open>woken()\<close> false, and let the FIFO found under
  the internal mutex be well formed with records \<open>xs\<close>. If the waiter's record is not
  among \<open>xs\<close>, the waiter leaves the FIFO as it is, calls \<^verbatim>\<open>wait\<close> on its record once
  more, without a timer, and returns 0. If the record is among \<open>xs\<close>, the waiter unlinks
  it and returns \<^verbatim>\<open>ETIMEDOUT\<close>, without a second \<^verbatim>\<open>wait\<close>. And whenever the call
  returns \<^verbatim>\<open>ETIMEDOUT\<close>, \<^verbatim>\<open>woken()\<close> was false, the record was in the FIFO, and the FIFO
  left behind is \<open>xs\<close> without it. (\<open>act\<close> is the call that takes the user mutex back,
  lines 92 to 100.)
\<close>

theorem condvar_wait_timeout_race:
  assumes "fifo_wf s xs" "condvar_wait_reacquire wm (woken_at_exit e) um = Inr act"
  shows "(\<not> woken_after_wait e \<and> w \<notin> set xs \<longrightarrow>
            condvar_wait_wakeup wm e w um tmr s
              = Some (Inr (0, s, [WrWait w tmr, WrWait w None, act])))
       \<and> (\<not> woken_after_wait e \<and> w \<in> set xs \<longrightarrow>
            (\<exists>s'. condvar_wait_wakeup wm e w um tmr s
                     = Some (Inr (ETIMEDOUT, s', [WrWait w tmr, act]))
                 \<and> fifo_wf s' (remove1 w xs)))
       \<and> (\<forall>s' acts. condvar_wait_wakeup wm e w um tmr s = Some (Inr (ETIMEDOUT, s', acts)) \<longrightarrow>
            \<not> woken_after_wait e \<and> w \<in> set xs \<and> fifo_wf s' (remove1 w xs)
            \<and> w \<notin> set (remove1 w xs))"
proof -
  have d: "distinct xs" using assms(1) by (simp add: fifo_wf_def)
  have E: "ETIMEDOUT \<noteq> 0" by (simp add: ETIMEDOUT_def)
  show ?thesis
  proof (cases "w \<in> set xs")
    case True
    with timeout_spec[OF assms(1), of w] obtain s1 where
      "condvar_wait_timeout w s = Some (ETIMEDOUT, s1)" "fifo_wf s1 (remove1 w xs)" by auto
    with True assms(2) d E show ?thesis
      by (auto simp: condvar_wait_wakeup_def)
  next
    case False
    with timeout_spec[OF assms(1), of w] have "condvar_wait_timeout w s = Some (0, s)" by auto
    with False assms(2) E show ?thesis
      by (auto simp: condvar_wait_wakeup_def)
  qed
qed

text \<open>
  On the three waiters: a waiter whose record (4) has already been dequeued returns 0
  after a second wait; the waiter of record 2 unlinks it and returns \<^verbatim>\<open>ETIMEDOUT\<close>.
\<close>

theorem condvar_wait_timeout_race_witness:
  "condvar_wait_wakeup True env_race_lost 4 (Some 5) (Some 100) st_three
      = Some (Inr (0, st_three, [WrWait 4 (Some 100), WrWait 4 None, ReceiveLock 5]))
   \<and> (\<exists>s'. condvar_wait_wakeup True env_timed_out 2 (Some 5) (Some 100) st_three
      = Some (Inr (ETIMEDOUT, s', [WrWait 2 (Some 100), MutexLock (Some 5)])) \<and> fifo_wf s' [1, 3])"
proof -
  have a: "condvar_wait_reacquire True (woken_at_exit env_race_lost) (Some 5)
      = Inr (ReceiveLock 5)"
    and b: "condvar_wait_reacquire True (woken_at_exit env_timed_out) (Some 5)
      = Inr (MutexLock (Some 5))"
    by (simp_all add: condvar_wait_reacquire_def env_race_lost_def env_timed_out_def)
  from condvar_wait_timeout_race [OF st_three_wf a, of 4 "Some 100"]
    condvar_wait_timeout_race [OF st_three_wf b, of 2 "Some 100"]
  show ?thesis by (simp add: env_race_lost_def env_timed_out_def)
qed

subsection \<open>C2: the remembered user mutex when the FIFO drains\<close>

text \<open>
  C2. The claim is that the remembered user mutex is cleared whenever the FIFO becomes
  empty, also when the last record is unlinked after a timeout. Evaluated on one waiter
  (record 1, mutex 5) enqueued on the empty condvar: condvar\_wake\_one and
  condvar\_wake\_all empty the FIFO and clear the pointer, as lines 127 to 131 and 149 to
  152 say they must; the removal after a timeout empties the FIFO and leaves the pointer
  at mutex 5, and the next waiter, alone on the condvar but with mutex 6, fails the
  assertion of line 45.
\<close>

theorem timeout_keeps_user_mutex:
  "\<exists>s1 s2. condvar_wait_enqueue True 1 11 (Some 5) st_empty = Inr s1
      \<and> condvar_wait_timeout 1 s1 = Some (ETIMEDOUT, s2)
      \<and> oldest s2 = None \<and> newest s2 = None \<and> user_mutex s2 = Some 5
      \<and> condvar_wait_enqueue True 2 12 (Some 6) s2 = Inl AssertFail
      \<and> (\<exists>s3 acts. condvar_wake_one True s1 = Inr (s3, acts) \<and> oldest s3 = None \<and> user_mutex s3 = None)
      \<and> (\<exists>s4 acts. condvar_wake_all True cpu_of s1 = Some (Inr (s4, acts)) \<and> oldest s4 = None \<and> user_mutex s4 = None)"
  by (simp add: condvar_wait_enqueue_def fifo_append_def st_empty_def condvar_wait_timeout_def
      wait_record_new_def condvar_wake_one_def handoff_def condvar_wake_all_def
      wake_all_loop.simps affinity_loop.simps Let_def)

subsection \<open>C6: the user mutex is taken back once\<close>

text \<open>
  C6. Every return of condvar\_wait makes exactly one call that takes the user mutex
  back, and it is the last call: \<^verbatim>\<open>receive_lock\<close> if \<^verbatim>\<open>WAIT_MORPHING\<close> is on and the
  record is woken, \<^verbatim>\<open>mutex_lock\<close> otherwise, so always \<^verbatim>\<open>mutex_lock\<close> without
  \<^verbatim>\<open>WAIT_MORPHING\<close>. If the owner \<open>ow\<close> of the user mutex is the waiter's thread
  whenever the record is woken under \<^verbatim>\<open>WAIT_MORPHING\<close> (what \<^verbatim>\<open>send_lock\<close> promises),
  the waiter's thread owns the mutex after that call. If the record is woken exactly on
  the returns with 0 (a record the waiter unlinked itself is never handed off, and
  \<^verbatim>\<open>wait\<close> without a timer returns only when woken), then a timed-out return takes the
  mutex with \<^verbatim>\<open>mutex_lock\<close> and, under \<^verbatim>\<open>WAIT_MORPHING\<close>, a return with 0 uses
  \<^verbatim>\<open>receive_lock\<close>.
\<close>

theorem condvar_wait_reacquires_once:
  assumes "condvar_wait wm e w t um tmr s = Some (Inr (ret, s', acts))"
  shows "length (filter reacquires acts) = 1 \<and> reacquires (last acts)
       \<and> (wm \<and> woken_at_exit e \<longrightarrow> (\<exists>u. um = Some u \<and> last acts = ReceiveLock u))
       \<and> (\<not> (wm \<and> woken_at_exit e) \<longrightarrow> last acts = MutexLock um)
       \<and> ((wm \<and> woken_at_exit e \<longrightarrow> ow = Some t) \<longrightarrow> owner_after t ow (last acts) = Some t)
       \<and> (woken_at_exit e = (ret = 0) \<longrightarrow>
            (ret \<noteq> 0 \<longrightarrow> last acts = MutexLock um)
          \<and> (wm \<and> ret = 0 \<longrightarrow> (\<exists>u. um = Some u \<and> last acts = ReceiveLock u)))"
  using assms
  by (auto simp: condvar_wait_def condvar_wait_wakeup_def condvar_wait_reacquire_def
      split: sum.splits option.splits if_splits)

text \<open>
  A signalled waiter under \<^verbatim>\<open>WAIT_MORPHING\<close> ends with \<^verbatim>\<open>receive_lock\<close>, a timed-out
  one with \<^verbatim>\<open>mutex_lock\<close>; thread 11 owns the mutex after either.
\<close>

theorem condvar_wait_reacquires_once_witness:
  "(\<exists>s'. condvar_wait True env_signalled 1 11 (Some 5) None st_empty
        = Some (Inr (0, s', [MutexUnlock (Some 5), WrWait 1 None, ReceiveLock 5])))
   \<and> owner_after 11 (Some 11) (ReceiveLock 5) = Some 11
   \<and> (\<exists>s'. condvar_wait True env_timed_out 1 11 (Some 5) (Some 100) st_empty
        = Some (Inr (ETIMEDOUT, s', [MutexUnlock (Some 5), WrWait 1 (Some 100), MutexLock (Some 5)])))
   \<and> owner_after 11 None (MutexLock (Some 5)) = Some 11"
proof -
  obtain s1 where r1: "condvar_wait True env_signalled 1 11 (Some 5) None st_empty
      = Some (Inr (0, s1, [MutexUnlock (Some 5), WrWait 1 None, ReceiveLock 5]))"
    by (simp add: condvar_wait_def condvar_wait_enqueue_def fifo_append_def st_empty_def
        condvar_wait_wakeup_def condvar_wait_reacquire_def env_signalled_def)
  obtain s2 where r2: "condvar_wait True env_timed_out 1 11 (Some 5) (Some 100) st_empty
      = Some (Inr (ETIMEDOUT, s2, [MutexUnlock (Some 5), WrWait 1 (Some 100), MutexLock (Some 5)]))"
    by (simp add: condvar_wait_def condvar_wait_enqueue_def fifo_append_def st_empty_def
        condvar_wait_wakeup_def condvar_wait_reacquire_def condvar_wait_timeout_def
        env_timed_out_def wait_record_new_def ETIMEDOUT_def Let_def)
  from condvar_wait_reacquires_once [OF r1, of "Some 11"]
    condvar_wait_reacquires_once [OF r2, of None] r1 r2
  show ?thesis by (simp add: env_signalled_def env_timed_out_def)
qed

subsection \<open>C9: expiration 0 means no timeout\<close>

text \<open>
  C9. The overload taking \<^verbatim>\<open>uint64_t expiration\<close> passes no timer when \<open>expiration\<close> is
  0: the call is condvar\_wait with the null timer, every \<^verbatim>\<open>wait\<close> it makes is without a
  timer, and, since such a \<^verbatim>\<open>wait\<close> returns only with the record woken, the call
  reaches its end and can return only 0, never \<^verbatim>\<open>ETIMEDOUT\<close>. When \<open>expiration\<close> is not
  0 the call is condvar\_wait with a timer set to \<open>expiration\<close>, which the record's
  \<^verbatim>\<open>wait\<close> receives.
\<close>

theorem condvar_wait_expiration_zero:
  "condvar_wait_expiration wm e w t um 0 s = condvar_wait wm e w t um None s
   \<and> (wait_returns None (woken_after_wait e) \<longrightarrow>
        condvar_wait_expiration wm e w t um 0 s \<noteq> None
      \<and> (\<forall>ret s' acts. condvar_wait_expiration wm e w t um 0 s = Some (Inr (ret, s', acts)) \<longrightarrow>
           ret = 0 \<and> ret \<noteq> ETIMEDOUT \<and> WrWait w None \<in> set acts
         \<and> (\<forall>a tm. WrWait a tm \<in> set acts \<longrightarrow> tm = None)))
   \<and> (expiration \<noteq> 0 \<longrightarrow>
        condvar_wait_expiration wm e w t um expiration s
          = condvar_wait wm e w t um (Some expiration) s
      \<and> (\<forall>ret s' acts. condvar_wait_expiration wm e w t um expiration s
             = Some (Inr (ret, s', acts)) \<longrightarrow> WrWait w (Some expiration) \<in> set acts))"
  by (auto simp: condvar_wait_expiration_def condvar_wait_def condvar_wait_wakeup_def
      condvar_wait_reacquire_def wait_returns_def ETIMEDOUT_def
      split: sum.splits option.splits if_splits)

text \<open>
  With expiration 0 the signalled waiter waits without a timer and returns 0; with
  expiration 100 and no signal the waiter returns \<^verbatim>\<open>ETIMEDOUT\<close>.
\<close>

theorem condvar_wait_expiration_zero_witness:
  "(\<exists>s'. condvar_wait_expiration True env_signalled 1 11 (Some 5) 0 st_empty
        = Some (Inr (0, s', [MutexUnlock (Some 5), WrWait 1 None, ReceiveLock 5])))
   \<and> (\<exists>s'. condvar_wait_expiration True env_timed_out 1 11 (Some 5) 100 st_empty
        = Some (Inr (ETIMEDOUT, s', [MutexUnlock (Some 5), WrWait 1 (Some 100), MutexLock (Some 5)])))"
proof -
  have w: "wait_returns None (woken_after_wait env_signalled)"
    by (simp add: wait_returns_def env_signalled_def)
  have r1: "\<exists>s'. condvar_wait True env_signalled 1 11 (Some 5) None st_empty
      = Some (Inr (0, s', [MutexUnlock (Some 5), WrWait 1 None, ReceiveLock 5]))"
    by (simp add: condvar_wait_def condvar_wait_enqueue_def fifo_append_def st_empty_def
        condvar_wait_wakeup_def condvar_wait_reacquire_def env_signalled_def)
  have r2: "\<exists>s'. condvar_wait True env_timed_out 1 11 (Some 5) (Some 100) st_empty
      = Some (Inr (ETIMEDOUT, s', [MutexUnlock (Some 5), WrWait 1 (Some 100), MutexLock (Some 5)]))"
    by (simp add: condvar_wait_def condvar_wait_enqueue_def fifo_append_def st_empty_def
        condvar_wait_wakeup_def condvar_wait_reacquire_def condvar_wait_timeout_def
        env_timed_out_def wait_record_new_def ETIMEDOUT_def Let_def)
  from condvar_wait_expiration_zero [of True env_signalled 1 11 "Some 5" st_empty 100] w r1 r2
    condvar_wait_expiration_zero [of True env_timed_out 1 11 "Some 5" st_empty 100]
  show ?thesis by simp
qed

subsection \<open>C10: a non-empty FIFO has a remembered user mutex\<close>

text \<open>
  C10. Under \<^verbatim>\<open>WAIT_MORPHING\<close>, on a well-formed FIFO: if the remembered user mutex is
  non-null whenever the FIFO is non-empty, this holds again after an enqueue with a
  non-null user mutex, after condvar\_wake\_one, after condvar\_wake\_all and after the
  removal that follows a timeout, each of which returns; and condvar\_wake\_one does not
  call \<^verbatim>\<open>send_lock\<close> through a null pointer.
\<close>

theorem user_mutex_nonnull_preserved:
  assumes "um_inv s" "fifo_wf s xs"
  shows "(\<forall>s'. um \<noteq> None \<longrightarrow> condvar_wait_enqueue True w t um s = Inr s' \<longrightarrow> um_inv s')
       \<and> (\<exists>s' acts. condvar_wake_one True s = Inr (s', acts) \<and> um_inv s')
       \<and> (\<exists>s' acts. condvar_wake_all True tcpu s = Some (Inr (s', acts)) \<and> um_inv s')
       \<and> (\<exists>ret s'. condvar_wait_timeout w s = Some (ret, s') \<and> um_inv s')
       \<and> condvar_wake_one True s \<noteq> Inl NullDeref"
proof -
  have nn: "True \<longrightarrow> xs \<noteq> [] \<longrightarrow> user_mutex s \<noteq> None"
    using assms fifo_wf_oldest[OF assms(2)] by (auto simp: um_inv_def)
  have 1: "\<forall>s'. um \<noteq> None \<longrightarrow> condvar_wait_enqueue True w t um s = Inr s' \<longrightarrow> um_inv s'"
    by (auto simp: condvar_wait_enqueue_def um_inv_def Let_def split: sum.splits if_splits)
  from wake_one_spec[OF assms(2) nn] obtain s1 acts1 where
    w1: "condvar_wake_one True s = Inr (s1, acts1)" and f1: "fifo_wf s1 (tl xs)"
    and u1: "user_mutex s1 = (if length xs = 1 then None else user_mutex s)" by auto
  have "um_inv s1"
    using fifo_wf_oldest[OF f1] u1 nn by (cases xs) (auto simp: um_inv_def)
  with w1 have 2: "\<exists>s' acts. condvar_wake_one True s = Inr (s', acts) \<and> um_inv s'" by blast
  from wake_all_spec[OF assms(2) nn, of tcpu]
  have 3: "\<exists>s' acts. condvar_wake_all True tcpu s = Some (Inr (s', acts)) \<and> um_inv s'"
    by (auto simp: um_inv_def fifo_wf_Nil)
  have 4: "\<exists>ret s'. condvar_wait_timeout w s = Some (ret, s') \<and> um_inv s'"
  proof (cases "w \<in> set xs")
    case True
    with timeout_spec[OF assms(2), of w] obtain s4 where
      t4: "condvar_wait_timeout w s = Some (ETIMEDOUT, s4)" and f4: "fifo_wf s4 (remove1 w xs)"
      and u4: "user_mutex s4 = user_mutex s" by auto
    have "um_inv s4" using fifo_wf_oldest[OF f4] u4 nn by (cases xs) (auto simp: um_inv_def)
    with t4 show ?thesis by blast
  next
    case False
    with timeout_spec[OF assms(2), of w] assms(1) show ?thesis by auto
  qed
  from 1 2 3 4 w1 show ?thesis by simp
qed

text \<open>The three waiters with mutex 5: each operation keeps the pointer set or empties the FIFO.\<close>

theorem user_mutex_nonnull_preserved_witness:
  "um_inv st_three
   \<and> (\<exists>s'. condvar_wait_enqueue True 4 14 (Some 5) st_three = Inr s' \<and> um_inv s')
   \<and> (\<exists>s' acts. condvar_wake_one True st_three = Inr (s', acts) \<and> um_inv s')
   \<and> (\<exists>s' acts. condvar_wake_all True cpu_of st_three = Some (Inr (s', acts)) \<and> um_inv s')
   \<and> (\<exists>ret s'. condvar_wait_timeout 2 st_three = Some (ret, s') \<and> um_inv s')
   \<and> condvar_wake_one True st_three \<noteq> Inl NullDeref"
proof -
  have i: "um_inv st_three" by (simp add: um_inv_def st_three_def)
  have e: "\<exists>s'. condvar_wait_enqueue True 4 14 (Some 5) st_three = Inr s'"
    by (simp add: condvar_wait_enqueue_def fifo_append_def st_three_def)
  from user_mutex_nonnull_preserved [OF i st_three_wf, of "Some 5" 4 14 cpu_of]
    user_mutex_nonnull_preserved [OF i st_three_wf, of "Some 5" 2 14 cpu_of] i e
  show ?thesis by auto
qed

end
